theory Spec2Isabelle
  imports Complex_Main "HOL-Library.AList" "HOL-Library.Multiset"
begin

section \<open>JavaScript values\<close>

text \<open>
  The values that travel over the push channel are JSON values. A JavaScript value that
  may also be \<^verbatim>\<open>undefined\<close> is a \<open>json option\<close>, with \<open>None\<close> for
  \<^verbatim>\<open>undefined\<close>. An object is the list of its properties; a parsed object has
  distinct keys.
\<close>

datatype json =
    JNull
  | JBool bool
  | JNum real
  | JStr string
  | JArr "json list"
  | JObj "(string \<times> json) list"

type_synonym jsval = "json option"

text \<open>JavaScript truthiness (\<^verbatim>\<open>if (v)\<close>, \<^verbatim>\<open>v || w\<close>).\<close>

fun truthy :: "jsval \<Rightarrow> bool" where
  "truthy None = False"
| "truthy (Some JNull) = False"
| "truthy (Some (JBool b)) = b"
| "truthy (Some (JNum n)) = (n \<noteq> 0)"
| "truthy (Some (JStr s)) = (s \<noteq> [])"
| "truthy (Some (JArr xs)) = True"
| "truthy (Some (JObj fs)) = True"

text \<open>
  \<^verbatim>\<open>v?.k\<close> for a key \<open>k\<close> that is no built-in property (\<^verbatim>\<open>dashboard\<close>,
  \<^verbatim>\<open>type\<close>, \<^verbatim>\<open>data\<close>): only an object can have it.
\<close>

fun opt_prop :: "jsval \<Rightarrow> string \<Rightarrow> jsval" where
  "opt_prop (Some (JObj fs)) k = map_of fs k"
| "opt_prop v k = None"

datatype js_error = TypeError

text \<open>\<^verbatim>\<open>v.k\<close> on a parsed JSON value: reading a property of \<^verbatim>\<open>null\<close> throws.\<close>

fun get_prop :: "json \<Rightarrow> string \<Rightarrow> js_error + jsval" where
  "get_prop JNull k = Inl TypeError"
| "get_prop v k = Inr (opt_prop (Some v) k)"

text \<open>The decimal name of an array index, as a property key.\<close>

fun decimal :: "nat \<Rightarrow> string" where
  "decimal n =
     (if n < 10 then [char_of (48 + n)] else decimal (n div 10) @ [char_of (48 + n mod 10)])"

text \<open>
  The own enumerable properties that object spread \<^verbatim>\<open>{...v}\<close> copies: the
  properties of an object, the indexed elements of an array, the indexed characters of
  a string, and nothing for any other value.
\<close>

fun own_props :: "jsval \<Rightarrow> (string \<times> json) list" where
  "own_props (Some (JObj fs)) = fs"
| "own_props (Some (JArr xs)) = zip (map decimal [0..<length xs]) xs"
| "own_props (Some (JStr s)) = zip (map decimal [0..<length s]) (map (\<lambda>c. JStr [c]) s)"
| "own_props v = []"

text \<open>
  Defining properties one after the other, as an object literal does: a key that is
  already there keeps its place and takes the new value.
\<close>

definition define_props :: "(string \<times> json) list \<Rightarrow> (string \<times> json) list \<Rightarrow> (string \<times> json) list" where
  "define_props ps obj = fold (\<lambda>(k, v). AList.update k v) ps obj"

section \<open>WebSocketProvider: the connection and the event bus\<close>

text \<open>
  \<^verbatim>\<open>WebSocketContext.tsx\<close>. The provider's state is its refs and its React state,
  together with the part of the browser it drives: the WebSocket objects it has
  constructed (by index, with their \<^verbatim>\<open>readyState\<close>), the frames handed to
  \<^verbatim>\<open>ws.send\<close>, the pending timers and the clock in milliseconds.
  Handlers are closures; a handler is named by a number, and what it does when it is
  called is read from a table of bodies: it acts on the state of the application, calls
  some of the unsubscribe functions, and returns or throws. A handler that subscribes
  during a dispatch is outside this model. \<open>calls\<close> records every handler
  invocation (event type, handler, payload) and is not read by the code.
\<close>

datatype readyState = CONNECTING | OPEN | CLOSING | CLOSED

record 'a hbody =
  effect :: "jsval \<Rightarrow> 'a \<Rightarrow> 'a"
  unsubs :: "(string \<times> nat) list"
  throws :: bool

record 'a provider =
  sockets :: "readyState list"
  outbox :: "(nat \<times> (string \<times> json) list) list"
  wsRef :: "nat option"
  handlersRef :: "string \<rightharpoonup> nat list"
  connected :: bool
  reconnectTimeoutRef :: "nat option"
  timers :: "(nat \<times> nat) list"
  next_timer :: nat
  now :: nat
  calls :: "(string \<times> nat \<times> jsval) list"
  app :: "'a"

definition init :: "'a \<Rightarrow> 'a provider" where
  "init a = \<lparr> sockets = [], outbox = [], wsRef = None, handlersRef = Map.empty,
              connected = False, reconnectTimeoutRef = None, timers = [], next_timer = 0,
              now = 0, calls = [], app = a \<rparr>"

text \<open>\<^verbatim>\<open>ws.readyState\<close> of the socket with index \<open>i\<close>.\<close>

definition ready :: "'a provider \<Rightarrow> nat \<Rightarrow> readyState" where
  "ready s i = (if i < length (sockets s) then sockets s ! i else CLOSED)"

text \<open>
  \<^verbatim>\<open>connect\<close>: construct a WebSocket, install its callbacks, store it in the ref.
  (The early return when there is no \<^verbatim>\<open>window\<close> is for rendering on the server;
  effects, sockets and timers exist in the browser only.)
\<close>

definition connect :: "'a provider \<Rightarrow> 'a provider" where
  "connect s = s\<lparr> sockets := sockets s @ [CONNECTING], wsRef := Some (length (sockets s)) \<rparr>"

text \<open>
  \<^verbatim>\<open>ws.close()\<close>: a socket that is connecting or open starts closing, and the
  browser fires its close event later; on a closing or closed socket it does nothing.
\<close>

definition ws_close :: "nat \<Rightarrow> 'a provider \<Rightarrow> 'a provider" where
  "ws_close i s =
     (if ready s i = CONNECTING \<or> ready s i = OPEN
      then s\<lparr> sockets := (sockets s)[i := CLOSING] \<rparr> else s)"

text \<open>\<^verbatim>\<open>setTimeout(f, ms)\<close> with \<open>f = connect\<close>, and \<^verbatim>\<open>clearTimeout(id)\<close>.\<close>

definition setTimeout :: "nat \<Rightarrow> 'a provider \<Rightarrow> nat \<times> 'a provider" where
  "setTimeout ms s =
     (next_timer s, s\<lparr> timers := timers s @ [(next_timer s, now s + ms)],
                       next_timer := Suc (next_timer s) \<rparr>)"

definition clearTimeout :: "nat option \<Rightarrow> 'a provider \<Rightarrow> 'a provider" where
  "clearTimeout t s =
     (case t of None \<Rightarrow> s
      | Some i \<Rightarrow> s\<lparr> timers := filter (\<lambda>p. fst p \<noteq> i) (timers s) \<rparr>)"

text \<open>\<^verbatim>\<open>ws.onopen\<close>, \<^verbatim>\<open>ws.onclose\<close>, \<^verbatim>\<open>ws.onerror\<close>.\<close>

definition onopen :: "'a provider \<Rightarrow> 'a provider" where
  "onopen s = s\<lparr> connected := True \<rparr>"

definition onclose :: "'a provider \<Rightarrow> 'a provider" where
  "onclose s =
     (let s1 = s\<lparr> connected := False \<rparr>;
          (t, s2) = setTimeout 3000 s1
      in s2\<lparr> reconnectTimeoutRef := Some t \<rparr>)"

definition onerror :: "nat \<Rightarrow> 'a provider \<Rightarrow> 'a provider" where
  "onerror i s = ws_close i s"

text \<open>The effect's start and its cleanup (mount and unmount of the provider).\<close>

definition mount :: "'a provider \<Rightarrow> 'a provider" where
  "mount s = connect s"

definition unmount :: "'a provider \<Rightarrow> 'a provider" where
  "unmount s =
     (let s1 = clearTimeout (reconnectTimeoutRef s) s
      in case wsRef s1 of None \<Rightarrow> s1 | Some i \<Rightarrow> ws_close i s1)"

text \<open>
  \<^verbatim>\<open>subscribe\<close> and the unsubscribe function it returns. A \<^verbatim>\<open>Set\<close> keeps
  its elements in insertion order, each once.
\<close>

definition set_add :: "nat \<Rightarrow> nat list \<Rightarrow> nat list" where
  "set_add h hs = (if h \<in> set hs then hs else hs @ [h])"

definition subscribe :: "string \<Rightarrow> nat \<Rightarrow> 'a provider \<Rightarrow> 'a provider" where
  "subscribe eventType h s =
     (let m = (if handlersRef s eventType = None then (handlersRef s)(eventType \<mapsto> [])
               else handlersRef s)
      in s\<lparr> handlersRef := m(eventType \<mapsto> set_add h (the (m eventType))) \<rparr>)"

definition unsubscribe :: "string \<Rightarrow> nat \<Rightarrow> 'a provider \<Rightarrow> 'a provider" where
  "unsubscribe eventType h s =
     (case handlersRef s eventType of None \<Rightarrow> s
      | Some hs \<Rightarrow> s\<lparr> handlersRef := (handlersRef s)(eventType \<mapsto> removeAll h hs) \<rparr>)"

definition registered :: "'a provider \<Rightarrow> string \<Rightarrow> nat \<Rightarrow> bool" where
  "registered s eventType h =
     (case handlersRef s eventType of None \<Rightarrow> False | Some hs \<Rightarrow> h \<in> set hs)"

text \<open>
  One handler call \<^verbatim>\<open>h(msg.data)\<close>: the call is recorded, the body acts on the
  application, then calls its unsubscribe functions.
\<close>

definition invoke :: "(nat \<Rightarrow> 'a hbody) \<Rightarrow> string \<Rightarrow> jsval \<Rightarrow> nat \<Rightarrow> 'a provider \<Rightarrow> 'a provider" where
  "invoke hb eventType d h s =
     fold (\<lambda>(e, g). unsubscribe e g) (unsubs (hb h))
       (s\<lparr> calls := calls s @ [(eventType, h, d)], app := effect (hb h) d (app s) \<rparr>)"

text \<open>
  \<^verbatim>\<open>handlers.forEach((h) => h(msg.data))\<close> over the live \<^verbatim>\<open>Set\<close>: the
  elements are visited in insertion order, and an element deleted before its turn is
  not visited. The second component tells whether a handler threw, which ends the
  iteration there.
\<close>

fun forEach :: "(nat \<Rightarrow> 'a hbody) \<Rightarrow> string \<Rightarrow> jsval \<Rightarrow> nat list \<Rightarrow> 'a provider \<Rightarrow> 'a provider \<times> bool" where
  "forEach hb eventType d [] s = (s, False)"
| "forEach hb eventType d (h # rest) s =
     (if \<not> registered s eventType h then forEach hb eventType d rest s
      else let s1 = invoke hb eventType d h s
           in if throws (hb h) then (s1, True) else forEach hb eventType d rest s1)"

text \<open>
  \<^verbatim>\<open>ws.onmessage\<close>. The frame is the outcome of \<^verbatim>\<open>JSON.parse(event.data)\<close>:
  \<open>None\<close> when it throws. Everything thrown inside the \<^verbatim>\<open>try\<close> block is
  caught and dropped. The keys of the handler map are strings, so a \<^verbatim>\<open>msg.type\<close>
  that is no string finds nothing.
\<close>

definition onmessage :: "(nat \<Rightarrow> 'a hbody) \<Rightarrow> json option \<Rightarrow> 'a provider \<Rightarrow> 'a provider" where
  "onmessage hb frame s =
     (case frame of None \<Rightarrow> s
      | Some msg \<Rightarrow>
          (case get_prop msg ''type'' of Inl e \<Rightarrow> s
           | Inr (Some (JStr eventType)) \<Rightarrow>
               (case handlersRef s eventType of None \<Rightarrow> s
                | Some hs \<Rightarrow> fst (forEach hb eventType (opt_prop (Some msg) ''data'') hs s))
           | Inr v \<Rightarrow> s))"

text \<open>\<^verbatim>\<open>send\<close>: the envelope is \<^verbatim>\<open>{ type, ...(data || {}) }\<close>.\<close>

definition envelope :: "string \<Rightarrow> jsval \<Rightarrow> (string \<times> json) list" where
  "envelope ty d =
     define_props (own_props (if truthy d then d else Some (JObj []))) [(''type'', JStr ty)]"

definition send :: "string \<Rightarrow> jsval \<Rightarrow> 'a provider \<Rightarrow> 'a provider" where
  "send ty d s =
     (case wsRef s of None \<Rightarrow> s
      | Some i \<Rightarrow>
          if ready s i = OPEN
          then s\<lparr> outbox := outbox s @ [(i, envelope ty d)] \<rparr> else s)"

text \<open>
  What happens to a mounted provider: the browser's events on a socket, time passing,
  and the calls of its clients. An event that the browser cannot fire in the socket's
  state (an open event on a socket that is not connecting, a message on a socket that
  is not open, anything on a closed socket) leaves the state as it is.
\<close>

datatype event =
    Mount
  | Unmount
  | WsOpen nat
  | WsMessage nat "json option"
  | WsError nat
  | WsClose nat
  | Elapse nat
  | Subscribe string nat
  | Unsubscribe string nat
  | Send string jsval

text \<open>Time passes: the clock advances and every timer that is due runs \<open>connect\<close>.\<close>

definition elapse :: "nat \<Rightarrow> 'a provider \<Rightarrow> 'a provider" where
  "elapse ms s =
     (let t = now s + ms;
          due = filter (\<lambda>p. snd p \<le> t) (timers s);
          s1 = s\<lparr> now := t, timers := filter (\<lambda>p. \<not> snd p \<le> t) (timers s) \<rparr>
      in fold (\<lambda>p. connect) due s1)"

fun step :: "(nat \<Rightarrow> 'a hbody) \<Rightarrow> event \<Rightarrow> 'a provider \<Rightarrow> 'a provider" where
  "step hb Mount s = mount s"
| "step hb Unmount s = unmount s"
| "step hb (WsOpen i) s =
     (if ready s i = CONNECTING then onopen (s\<lparr> sockets := (sockets s)[i := OPEN] \<rparr>) else s)"
| "step hb (WsMessage i frame) s =
     (if ready s i = OPEN then onmessage hb frame s else s)"
| "step hb (WsError i) s =
     (if ready s i \<noteq> CLOSED then onerror i s else s)"
| "step hb (WsClose i) s =
     (if ready s i \<noteq> CLOSED then onclose (s\<lparr> sockets := (sockets s)[i := CLOSED] \<rparr>) else s)"
| "step hb (Elapse ms) s = elapse ms s"
| "step hb (Subscribe e h) s = subscribe e h s"
| "step hb (Unsubscribe e h) s = unsubscribe e h s"
| "step hb (Send ty d) s = send ty d s"

definition run :: "(nat \<Rightarrow> 'a hbody) \<Rightarrow> event list \<Rightarrow> 'a provider \<Rightarrow> 'a provider" where
  "run hb evs s = fold (step hb) evs s"

text \<open>The recorded calls of handler \<open>h\<close> for event type \<open>e\<close>.\<close>

definition invocations :: "string \<Rightarrow> nat \<Rightarrow> 'a provider \<Rightarrow> (string \<times> nat \<times> jsval) list" where
  "invocations e h s = filter (\<lambda>c. fst c = e \<and> fst (snd c) = h) (calls s)"

text \<open>
  Three tables of handler bodies for the examples: in the first, handler 0 throws; in
  the second, handler 0 calls the unsubscribe function of handler 1 for
  \<^verbatim>\<open>tick\<close>; in the third, handler 0 does the same and handler 2 throws.
  No handler acts on the application.
\<close>

definition throwing_first :: "nat \<Rightarrow> unit hbody" where
  "throwing_first h = \<lparr> effect = (\<lambda>d a. a), unsubs = [], throws = (h = 0) \<rparr>"

definition unsubscribing_first :: "nat \<Rightarrow> unit hbody" where
  "unsubscribing_first h =
     \<lparr> effect = (\<lambda>d a. a), unsubs = (if h = 0 then [(''tick'', 1)] else []), throws = False \<rparr>"

definition unsubscribing_then_throwing :: "nat \<Rightarrow> unit hbody" where
  "unsubscribing_then_throwing h =
     \<lparr> effect = (\<lambda>d a. a), unsubs = (if h = 0 then [(''tick'', 1)] else []),
       throws = (h = 2) \<rparr>"

section \<open>useDashboard and useCoins: the resource caches\<close>

text \<open>
  \<^verbatim>\<open>useDashboard.ts\<close> and \<^verbatim>\<open>useCoins.ts\<close> keep their resource in an SWR
  cache. SWR is a library the hooks call; of it the model keeps the cached value and
  the number of revalidations (pulls) requested through \<^verbatim>\<open>mutate\<close>.
  \<^verbatim>\<open>mutate(v, { revalidate })\<close> replaces the cached value and revalidates only
  when asked to; \<^verbatim>\<open>mutate()\<close> revalidates and leaves the value.
\<close>

record swr =
  data :: jsval
  revalidations :: nat

definition mutate :: "jsval \<Rightarrow> bool \<Rightarrow> swr \<Rightarrow> swr" where
  "mutate v revalidate c =
     (if revalidate then c\<lparr> data := v, revalidations := Suc (revalidations c) \<rparr>
      else c\<lparr> data := v \<rparr>)"

definition mutate_revalidate :: "swr \<Rightarrow> swr" where
  "mutate_revalidate c = c\<lparr> revalidations := Suc (revalidations c) \<rparr>"

text \<open>
  The \<^verbatim>\<open>refreshInterval\<close> option each hook passes, in milliseconds, from the
  \<^verbatim>\<open>connected\<close> flag of the provider. For SWR an interval of 0 turns polling off;
  otherwise a pull is issued every interval.
\<close>

definition useDashboard_refreshInterval :: "bool \<Rightarrow> nat" where
  "useDashboard_refreshInterval conn = (if conn then 0 else 30000)"

definition useCoins_refreshInterval :: "bool \<Rightarrow> nat" where
  "useCoins_refreshInterval conn = 60000"

definition timer_pulls :: "nat \<Rightarrow> nat \<Rightarrow> nat" where
  "timer_pulls interval ms = (if interval = 0 then 0 else ms div interval)"

text \<open>The three event handlers the hooks subscribe.\<close>

definition on_initial_state :: "jsval \<Rightarrow> swr \<Rightarrow> swr" where
  "on_initial_state d c =
     (if truthy (opt_prop d ''dashboard'') then mutate (opt_prop d ''dashboard'') False c
      else c)"

definition on_dashboard_update :: "jsval \<Rightarrow> swr \<Rightarrow> swr" where
  "on_dashboard_update d c = mutate d False c"

definition on_blacklist_updated :: "jsval \<Rightarrow> swr \<Rightarrow> swr" where
  "on_blacklist_updated d c = mutate_revalidate c"

text \<open>
  The application under the provider: the two caches. Handler 0 and handler 1 are the
  closures of \<^verbatim>\<open>useDashboard\<close>, handler 2 is the closure of \<^verbatim>\<open>useCoins\<close>;
  none of them unsubscribes or throws.
\<close>

record caches =
  dashboard :: swr
  coins :: swr

definition hooks :: "nat \<Rightarrow> caches hbody" where
  "hooks h =
     (if h = 0 then
        \<lparr> effect = (\<lambda>d a. a\<lparr> dashboard := on_initial_state d (dashboard a) \<rparr>),
          unsubs = [], throws = False \<rparr>
      else if h = 1 then
        \<lparr> effect = (\<lambda>d a. a\<lparr> dashboard := on_dashboard_update d (dashboard a) \<rparr>),
          unsubs = [], throws = False \<rparr>
      else if h = 2 then
        \<lparr> effect = (\<lambda>d a. a\<lparr> coins := on_blacklist_updated d (coins a) \<rparr>),
          unsubs = [], throws = False \<rparr>
      else \<lparr> effect = (\<lambda>d a. a), unsubs = [], throws = False \<rparr>)"

text \<open>
  Modelled from the spec: \<^verbatim>\<open>useWebSocket\<close>, the hook that both hooks import and
  that is not among the sources, hands out the provider's \<^verbatim>\<open>connected\<close> flag and
  its \<^verbatim>\<open>subscribe\<close> (the caches subscribe on the event bus of the connection
  manager). The effects of the two hooks are then these subscriptions.
\<close>

definition useDashboard_effect :: "caches provider \<Rightarrow> caches provider" where
  "useDashboard_effect s = subscribe ''dashboard_update'' 1 (subscribe ''initial_state'' 0 s)"

definition useCoins_effect :: "caches provider \<Rightarrow> caches provider" where
  "useCoins_effect s = subscribe ''blacklist_updated'' 2 s"

definition no_caches :: caches where
  "no_caches = \<lparr> dashboard = \<lparr> data = None, revalidations = 0 \<rparr>,
                 coins = \<lparr> data = None, revalidations = 0 \<rparr> \<rparr>"

definition frame_of :: "string \<Rightarrow> json \<Rightarrow> json option" where
  "frame_of ty d = Some (JObj [(''type'', JStr ty), (''data'', d)])"

section \<open>CoinTable: filter, sort and the sort command\<close>

text \<open>
  \<^verbatim>\<open>CoinTable\<close>. A row is a \<^verbatim>\<open>CoinData\<close>; \<^verbatim>\<open>coin\<close> is a string (the
  filter calls \<^verbatim>\<open>toLowerCase\<close> on it), and every other field holds the value the
  comparator finds there at run time, which may be \<^verbatim>\<open>null\<close> or absent.
\<close>

datatype cell = Undefined | Null | Str string | Bool bool | Num real

datatype SortKey =
    K_coin | K_mark_price | K_funding_rate | K_open_interest | K_trade_count
  | K_win_rate | K_total_pnl | K_confidence_adjustment | K_blacklisted

datatype SortDir = asc | desc

record CoinData =
  coin :: string
  mark_price :: cell
  funding_rate :: cell
  open_interest :: cell
  trade_count :: cell
  win_rate :: cell
  total_pnl :: cell
  confidence_adjustment :: cell
  blacklisted :: cell

text \<open>\<^verbatim>\<open>a[sortKey]\<close>.\<close>

fun column :: "SortKey \<Rightarrow> CoinData \<Rightarrow> cell" where
  "column K_coin c = Str (coin c)"
| "column K_mark_price c = mark_price c"
| "column K_funding_rate c = funding_rate c"
| "column K_open_interest c = open_interest c"
| "column K_trade_count c = trade_count c"
| "column K_win_rate c = win_rate c"
| "column K_total_pnl c = total_pnl c"
| "column K_confidence_adjustment c = confidence_adjustment c"
| "column K_blacklisted c = blacklisted c"

text \<open>
  Three functions of the JavaScript engine are parameters of the model: the locale's
  \<^verbatim>\<open>localeCompare\<close>; the conversion of a string to a number (\<open>None\<close> is
  \<^verbatim>\<open>NaN\<close>), which the last branch of the comparator applies when the two values
  are of different types; and the Unicode lower-casing of a string that has characters
  outside ASCII.
\<close>

record engine =
  localeCompare :: "string \<Rightarrow> string \<Rightarrow> real"
  stringToNumber :: "string \<Rightarrow> real option"
  unicodeLowerCase :: "string \<Rightarrow> string"

fun toNumber :: "engine \<Rightarrow> cell \<Rightarrow> real option" where
  "toNumber js Undefined = None"
| "toNumber js Null = Some 0"
| "toNumber js (Str s) = stringToNumber js s"
| "toNumber js (Bool b) = Some (if b then 1 else 0)"
| "toNumber js (Num r) = Some r"

text \<open>
  Subtraction of numbers; the difference is \<^verbatim>\<open>NaN\<close> when an operand is. Numbers
  are the finite numbers JSON can carry, taken as reals: the sign of a difference,
  which is all the sort reads, is the same for them.
\<close>

fun js_minus :: "real option \<Rightarrow> real option \<Rightarrow> real option" where
  "js_minus (Some x) (Some y) = Some (x - y)"
| "js_minus x y = None"

definition nullish :: "cell \<Rightarrow> bool" where
  "nullish v = (v = Null \<or> v = Undefined)"

text \<open>The comparator passed to \<^verbatim>\<open>list.sort\<close>.\<close>

definition comparator :: "engine \<Rightarrow> SortKey \<Rightarrow> SortDir \<Rightarrow> CoinData \<Rightarrow> CoinData \<Rightarrow> real option" where
  "comparator js sortKey sortDir a b =
     (let av = column sortKey a; bv = column sortKey b in
      if nullish av then Some 1
      else if nullish bv then Some (- 1)
      else case (av, bv) of
        (Str x, Str y) \<Rightarrow>
          Some (if sortDir = asc then localeCompare js x y else localeCompare js y x)
      | (Bool x, Bool y) \<Rightarrow>
          (if sortDir = asc then js_minus (toNumber js (Bool x)) (toNumber js (Bool y))
           else js_minus (toNumber js (Bool y)) (toNumber js (Bool x)))
      | _ \<Rightarrow>
          (if sortDir = asc then js_minus (toNumber js av) (toNumber js bv)
           else js_minus (toNumber js bv) (toNumber js av)))"

text \<open>
  \<^verbatim>\<open>Array.prototype.sort\<close> is the engine's, a stable sort; it reads a
  \<^verbatim>\<open>NaN\<close> from the comparator as 0. It is modelled by the stable insertion sort:
  each element in turn moves left past the elements it compares below. The
  accumulator of \<open>insert_sorted\<close> is the sorted prefix, last element first.
  (The comparator answers 1 for two rows without a value, in either order; the order
  the engine gives such rows among themselves is its own, and here it is the order
  of the input.)
\<close>

definition sort_compare :: "('a \<Rightarrow> 'a \<Rightarrow> real option) \<Rightarrow> 'a \<Rightarrow> 'a \<Rightarrow> real" where
  "sort_compare comparefn x y = (case comparefn x y of None \<Rightarrow> 0 | Some v \<Rightarrow> v)"

fun insert_sorted :: "('a \<Rightarrow> 'a \<Rightarrow> real option) \<Rightarrow> 'a \<Rightarrow> 'a list \<Rightarrow> 'a list" where
  "insert_sorted comparefn x [] = [x]"
| "insert_sorted comparefn x (y # ys) =
     (if sort_compare comparefn x y < 0 then y # insert_sorted comparefn x ys
      else x # y # ys)"

definition array_sort :: "('a \<Rightarrow> 'a \<Rightarrow> real option) \<Rightarrow> 'a list \<Rightarrow> 'a list" where
  "array_sort comparefn xs = rev (fold (insert_sorted comparefn) xs [])"

text \<open>
  \<^verbatim>\<open>s.toLowerCase()\<close> and \<^verbatim>\<open>s.includes(q)\<close>. A string is the list of its
  UTF-8 bytes, so a character outside ASCII is a run of bytes from 128 on. On a string
  of ASCII characters alone, \<^verbatim>\<open>toLowerCase\<close> turns the letters A to Z into a to z
  and leaves every other character; on any other string it is the engine's Unicode
  mapping, of which nothing is assumed.
\<close>

definition lower_char :: "char \<Rightarrow> char" where
  "lower_char c =
     (if 65 \<le> (of_char c :: nat) \<and> (of_char c :: nat) \<le> 90 then char_of (of_char c + 32 :: nat)
      else c)"

definition is_ascii :: "string \<Rightarrow> bool" where
  "is_ascii s = list_all (\<lambda>c. (of_char c :: nat) < 128) s"

definition toLowerCase :: "engine \<Rightarrow> string \<Rightarrow> string" where
  "toLowerCase js s = (if is_ascii s then map lower_char s else unicodeLowerCase js s)"

fun str_includes :: "string \<Rightarrow> string \<Rightarrow> bool" where
  "str_includes [] q = (q = [])"
| "str_includes (c # s) q = (take (length q) (c # s) = q \<or> str_includes s q)"

text \<open>The memoised \<^verbatim>\<open>filtered\<close> list: the filter, then the sort.\<close>

definition filtered :: "engine \<Rightarrow> CoinData list \<Rightarrow> string \<Rightarrow> SortKey \<Rightarrow> SortDir \<Rightarrow> CoinData list" where
  "filtered js cs search sortKey sortDir =
     (let q = toLowerCase js search;
          list = filter (\<lambda>c. str_includes (toLowerCase js (coin c)) q) cs
      in array_sort (comparator js sortKey sortDir) list)"

text \<open>A row for the examples: its name and its win rate; the other fields are fixed.\<close>

definition example_row :: "string \<Rightarrow> cell \<Rightarrow> CoinData" where
  "example_row name wr =
     \<lparr> coin = name, mark_price = Num 1, funding_rate = Num 0, open_interest = Num 0,
       trade_count = Num 0, win_rate = wr, total_pnl = Null, confidence_adjustment = Num 1,
       blacklisted = Bool False \<rparr>"

text \<open>The state of the component and \<^verbatim>\<open>handleSort\<close>.\<close>

record table_state =
  sortKey :: SortKey
  sortDir :: SortDir
  selectedCoin :: "string option"

definition initial_table :: table_state where
  "initial_table = \<lparr> sortKey = K_coin, sortDir = asc, selectedCoin = None \<rparr>"

definition handleSort :: "SortKey \<Rightarrow> table_state \<Rightarrow> table_state" where
  "handleSort key st =
     (if sortKey st = key then st\<lparr> sortDir := (if sortDir st = asc then desc else asc) \<rparr>
      else st\<lparr> sortKey := key, sortDir := asc \<rparr>)"

definition rows :: "engine \<Rightarrow> CoinData list \<Rightarrow> string \<Rightarrow> table_state \<Rightarrow> CoinData list" where
  "rows js cs search st = filtered js cs search (sortKey st) (sortDir st)"

section \<open>The outbound envelope and send\<close>

lemma map_of_define_props: "map_of (define_props ps obj) = map_of obj ++ map_of (rev ps)"
proof (induction ps arbitrary: obj)
  case Nil
  then show ?case by (simp add: define_props_def)
next
  case (Cons p ps)
  obtain k v where p: "p = (k, v)" by (cases p)
  have "define_props (p # ps) obj = define_props ps (AList.update k v obj)"
    by (simp add: define_props_def p)
  then show ?case
    using Cons.IH [of "AList.update k v obj"]
    by (auto simp: p update_conv' fun_eq_iff map_add_def split: option.splits)
qed

lemma map_of_rev_distinct: "distinct (map fst ps) \<Longrightarrow> map_of (rev ps) = map_of ps"
proof (induction ps)
  case Nil
  then show ?case by simp
next
  case (Cons p ps)
  obtain k v where p: "p = (k, v)" by (cases p)
  from Cons.prems have "map_of ps k = None"
    by (simp add: p map_of_eq_None_iff)
  moreover from Cons have "map_of (rev ps) = map_of ps" by simp
  ultimately show ?case
    by (auto simp: p fun_eq_iff map_add_def split: option.splits)
qed

lemma envelope_object:
  "distinct (map fst fs) \<Longrightarrow>
   map_of (envelope ty (Some (JObj fs))) = [''type'' \<mapsto> JStr ty] ++ map_of fs"
  by (simp add: envelope_def map_of_define_props map_of_rev_distinct)

lemma envelope_falsy: "\<not> truthy d \<Longrightarrow> envelope ty d = [(''type'', JStr ty)]"
  by (simp add: envelope_def define_props_def)

text \<open>
  C8. \<^verbatim>\<open>send(type, payload)\<close> transmits only when the socket in the ref is open:
  then exactly one frame goes out on that socket, the envelope, and nothing else
  changes. In every other state the call returns the state as it was: nothing is sent,
  queued or raised. The envelope of a payload object has the payload's fields at top
  level beside \<^verbatim>\<open>type\<close> (so a \<^verbatim>\<open>data\<close> key only if the payload has one), and
  the envelope of a missing or falsy payload is \<^verbatim>\<open>{type}\<close> alone.
\<close>

theorem send_only_when_open:
  "(wsRef s = Some i \<and> ready s i = OPEN \<longrightarrow>
      send ty d s = s\<lparr> outbox := outbox s @ [(i, envelope ty d)] \<rparr>)
   \<and> ((\<forall>i. wsRef s = Some i \<longrightarrow> ready s i \<noteq> OPEN) \<longrightarrow> send ty d s = s)
   \<and> (distinct (map fst fs) \<longrightarrow>
        map_of (envelope ty (Some (JObj fs))) = [''type'' \<mapsto> JStr ty] ++ map_of fs)
   \<and> (\<not> truthy d \<longrightarrow> envelope ty d = [(''type'', JStr ty)])"
  by (auto simp: send_def envelope_object envelope_falsy split: option.splits)

text \<open>
  The same at concrete states: on an open socket \<^verbatim>\<open>send("ping", {n: 1})\<close> puts
  \<^verbatim>\<open>{type: "ping", n: 1}\<close> on the wire, with no \<^verbatim>\<open>data\<close> key; while the
  socket is still connecting the call changes nothing.
\<close>

theorem send_only_when_open_witness:
  "wsRef (run hooks [Mount, WsOpen 0] (init no_caches)) = Some 0
   \<and> ready (run hooks [Mount, WsOpen 0] (init no_caches)) 0 = OPEN
   \<and> outbox (send ''ping'' (Some (JObj [(''n'', JNum 1)]))
        (run hooks [Mount, WsOpen 0] (init no_caches)))
       = [(0, [(''type'', JStr ''ping''), (''n'', JNum 1)])]
   \<and> wsRef (run hooks [Mount] (init no_caches)) = Some 0
   \<and> ready (run hooks [Mount] (init no_caches)) 0 = CONNECTING
   \<and> send ''ping'' (Some (JObj [(''n'', JNum 1)])) (run hooks [Mount] (init no_caches))
       = run hooks [Mount] (init no_caches)
   \<and> distinct (map fst [(''n'', JNum 1)])
   \<and> map_of (envelope ''ping'' (Some (JObj [(''n'', JNum 1)]))) ''data'' = None
   \<and> \<not> truthy None
   \<and> envelope ''ping'' None = [(''type'', JStr ''ping'')]"
  using
    send_only_when_open [of "run hooks [Mount, WsOpen 0] (init no_caches)" 0 "''ping''"
      "Some (JObj [(''n'', JNum 1)])" "[(''n'', JNum 1)]"]
    send_only_when_open [of "run hooks [Mount] (init no_caches)" 0 "''ping''"
      "Some (JObj [(''n'', JNum 1)])" "[(''n'', JNum 1)]"]
    send_only_when_open [of "init no_caches" 0 "''ping''" None "[]"]
  by (simp add: run_def init_def mount_def connect_def ready_def onopen_def envelope_def
      define_props_def)

text \<open>
  C10. The payload is spread after \<^verbatim>\<open>type\<close>: when the payload object has a
  \<^verbatim>\<open>type\<close> key of its own, the frame sent on the open socket carries the payload's
  value under \<^verbatim>\<open>type\<close>, not the argument.
\<close>

theorem payload_type_overrides:
  "wsRef s = Some i \<Longrightarrow> ready s i = OPEN \<Longrightarrow> distinct (map fst fs) \<Longrightarrow>
   map_of fs ''type'' = Some v \<Longrightarrow>
   outbox (send ty (Some (JObj fs)) s) = outbox s @ [(i, envelope ty (Some (JObj fs)))]
   \<and> map_of (envelope ty (Some (JObj fs))) ''type'' = Some v"
  by (simp add: send_def envelope_object map_add_def)

text \<open>\<^verbatim>\<open>send("a", {type: "b"})\<close> on an open socket transmits \<^verbatim>\<open>{type: "b"}\<close>.\<close>

theorem payload_type_overrides_witness:
  "wsRef (run hooks [Mount, WsOpen 0] (init no_caches)) = Some 0
   \<and> ready (run hooks [Mount, WsOpen 0] (init no_caches)) 0 = OPEN
   \<and> distinct (map fst [(''type'', JStr ''b'')])
   \<and> map_of [(''type'', JStr ''b'')] ''type'' = Some (JStr ''b'')
   \<and> outbox (send ''a'' (Some (JObj [(''type'', JStr ''b'')]))
        (run hooks [Mount, WsOpen 0] (init no_caches)))
       = [(0, [(''type'', JStr ''b'')])]"
  using payload_type_overrides [of "run hooks [Mount, WsOpen 0] (init no_caches)" 0
      "[(''type'', JStr ''b'')]" "JStr ''b''" "''a''"]
  by (simp add: run_def init_def mount_def connect_def ready_def onopen_def envelope_def
      define_props_def)

section \<open>Teardown and reconnection\<close>

text \<open>
  C1. The provider is mounted, its socket opens, and the provider is unmounted: the
  cleanup finds no pending timer and calls \<^verbatim>\<open>close\<close> on the socket, which starts
  closing. When the browser then fires the socket's close event, \<^verbatim>\<open>onclose\<close>
  schedules a reconnection for 3000 ms later, and when that time has passed
  \<^verbatim>\<open>connect\<close> runs: a second socket is constructed after the teardown. (The last
  line is the other order: a close event before the unmount leaves a pending timer, the
  cleanup cancels it, and no second socket appears.)
\<close>

theorem teardown_then_close_event_reconnects:
  "sockets (run hb [Mount, WsOpen 0, Unmount] (init a)) = [CLOSING]
   \<and> timers (run hb [Mount, WsOpen 0, Unmount] (init a)) = []
   \<and> timers (run hb [Mount, WsOpen 0, Unmount, WsClose 0] (init a)) = [(0, 3000)]
   \<and> sockets (run hb [Mount, WsOpen 0, Unmount, WsClose 0, Elapse 3000] (init a))
       = [CLOSED, CONNECTING]
   \<and> wsRef (run hb [Mount, WsOpen 0, Unmount, WsClose 0, Elapse 3000] (init a)) = Some 1
   \<and> sockets (run hb [Mount, WsOpen 0, WsClose 0, Unmount, Elapse 3000] (init a)) = [CLOSED]"
  by (simp add: run_def init_def mount_def connect_def ready_def onopen_def unmount_def
      clearTimeout_def ws_close_def onclose_def setTimeout_def elapse_def Let_def)

section \<open>Dispatch: throwing handlers and unsubscription\<close>

subsection \<open>A handler that is not registered is not called\<close>

lemma registered_unsubscribe:
  "\<not> registered s e h \<Longrightarrow> \<not> registered (unsubscribe e' g s) e h"
  by (auto simp: registered_def unsubscribe_def split: option.splits)

lemma registered_unsubscribe_same: "\<not> registered (unsubscribe e h s) e h"
  by (auto simp: registered_def unsubscribe_def split: option.splits)

lemma calls_unsubscribe: "calls (unsubscribe e g s) = calls s"
  by (simp add: unsubscribe_def split: option.splits)

lemma registered_fold_unsubscribe:
  "\<not> registered s e h \<Longrightarrow> \<not> registered (fold (\<lambda>(e', g). unsubscribe e' g) us s) e h"
proof (induction us arbitrary: s)
  case Nil
  then show ?case by simp
next
  case (Cons u us)
  obtain e' g where u: "u = (e', g)" by (cases u)
  from Cons.prems have "\<not> registered (unsubscribe e' g s) e h"
    by (rule registered_unsubscribe)
  from Cons.IH [OF this] show ?case by (simp add: u)
qed

lemma calls_fold_unsubscribe: "calls (fold (\<lambda>(e', g). unsubscribe e' g) us s) = calls s"
proof (induction us arbitrary: s)
  case Nil
  then show ?case by simp
next
  case (Cons u us)
  obtain e' g where u: "u = (e', g)" by (cases u)
  from Cons.IH [of "unsubscribe e' g s"] show ?case by (simp add: u calls_unsubscribe)
qed

lemma registered_fold_unsubscribe_mem:
  "(e, h) \<in> set us \<Longrightarrow> \<not> registered (fold (\<lambda>(e', g). unsubscribe e' g) us s) e h"
proof (induction us arbitrary: s)
  case Nil
  then show ?case by simp
next
  case (Cons u us)
  show ?case
  proof (cases "u = (e, h)")
    case True
    then show ?thesis
      by (simp add: registered_fold_unsubscribe registered_unsubscribe_same)
  next
    case False
    with Cons show ?thesis by (cases u) auto
  qed
qed

lemma registered_invoke:
  "\<not> registered s e h \<Longrightarrow> \<not> registered (invoke hb e' d g s) e h"
  unfolding invoke_def
  by (rule registered_fold_unsubscribe) (simp add: registered_def)

lemma calls_invoke: "calls (invoke hb e d g s) = calls s @ [(e, g, d)]"
  by (simp add: invoke_def calls_fold_unsubscribe)

lemma forEach_unregistered:
  "\<not> registered s e h \<Longrightarrow>
   \<not> registered (fst (forEach hb e' d hs s)) e h \<and>
   invocations e h (fst (forEach hb e' d hs s)) = invocations e h s"
proof (induction hs arbitrary: s)
  case Nil
  then show ?case by simp
next
  case (Cons g rest)
  show ?case
  proof (cases "registered s e' g")
    case False
    with Cons show ?thesis by simp
  next
    case True
    with Cons.prems have ne: "\<not> (e' = e \<and> g = h)" by auto
    let ?s1 = "invoke hb e' d g s"
    have r1: "\<not> registered ?s1 e h" using Cons.prems by (rule registered_invoke)
    have c1: "invocations e h ?s1 = invocations e h s"
      using ne by (auto simp: invocations_def calls_invoke)
    show ?thesis
    proof (cases "throws (hb g)")
      case True
      with \<open>registered s e' g\<close> r1 c1 show ?thesis by (simp add: Let_def)
    next
      case False
      with \<open>registered s e' g\<close> Cons.IH [OF r1] c1 show ?thesis by (simp add: Let_def)
    qed
  qed
qed

lemma onmessage_unregistered:
  "\<not> registered s e h \<Longrightarrow>
   \<not> registered (onmessage hb frame s) e h \<and>
   invocations e h (onmessage hb frame s) = invocations e h s"
  by (auto simp: onmessage_def forEach_unregistered
      split: option.splits sum.splits json.splits)

lemma registered_subscribe_other:
  "\<not> registered s e h \<Longrightarrow> (e', g) \<noteq> (e, h) \<Longrightarrow> \<not> registered (subscribe e' g s) e h"
  by (auto simp: registered_def subscribe_def set_add_def Let_def split: option.splits if_splits)

lemma calls_subscribe: "calls (subscribe e g s) = calls s"
  by (simp add: subscribe_def Let_def)

lemma fold_connect_handlers:
  "handlersRef (fold (\<lambda>p. connect) ps s) = handlersRef s \<and> calls (fold (\<lambda>p. connect) ps s) = calls s"
  by (induction ps arbitrary: s) (simp_all add: connect_def)

lemma step_unregistered:
  "\<not> registered s e h \<Longrightarrow> ev \<noteq> Subscribe e h \<Longrightarrow>
   \<not> registered (step hb ev s) e h \<and> invocations e h (step hb ev s) = invocations e h s"
proof (cases ev)
  case (WsMessage i frame)
  assume "\<not> registered s e h"
  then show ?thesis using WsMessage by (simp add: onmessage_unregistered)
next
  case (Subscribe e' g)
  assume "\<not> registered s e h" "ev \<noteq> Subscribe e h"
  then show ?thesis using Subscribe
    by (simp add: registered_subscribe_other invocations_def calls_subscribe)
next
  case (Unsubscribe e' g)
  assume "\<not> registered s e h"
  then show ?thesis using Unsubscribe
    by (simp add: registered_unsubscribe invocations_def calls_unsubscribe)
next
  case (Elapse ms)
  assume "\<not> registered s e h"
  then show ?thesis using Elapse
    by (simp add: registered_def invocations_def elapse_def Let_def fold_connect_handlers)
qed (auto simp: registered_def invocations_def mount_def connect_def unmount_def clearTimeout_def
      ws_close_def onopen_def onclose_def onerror_def setTimeout_def send_def Let_def
      split: option.splits)

lemma run_unregistered:
  "\<not> registered s e h \<Longrightarrow> Subscribe e h \<notin> set evs \<Longrightarrow>
   \<not> registered (run hb evs s) e h \<and> invocations e h (run hb evs s) = invocations e h s"
proof (induction evs arbitrary: s)
  case Nil
  then show ?case by (simp add: run_def)
next
  case (Cons ev evs)
  from Cons.prems have a: "ev \<noteq> Subscribe e h" and b: "Subscribe e h \<notin> set evs" by auto
  from step_unregistered [OF Cons.prems(1) a, of hb]
  have r: "\<not> registered (step hb ev s) e h"
    and c: "invocations e h (step hb ev s) = invocations e h s" by simp_all
  from Cons.IH [OF r b] c show ?case by (simp add: run_def)
qed

subsection \<open>Handlers that do not unsubscribe: the calls of one dispatch\<close>

lemma registered_invoke_plain:
  "unsubs (hb g) = [] \<Longrightarrow> registered (invoke hb e d g s) e' h = registered s e' h"
  by (simp add: invoke_def registered_def)

lemma forEach_calls_plain:
  "\<forall>h\<in>set hs. registered s e h \<and> unsubs (hb h) = [] \<Longrightarrow>
   calls (fst (forEach hb e d hs s)) =
     calls s @ map (\<lambda>h. (e, h, d))
       (takeWhile (\<lambda>h. \<not> throws (hb h)) hs @ take 1 (dropWhile (\<lambda>h. \<not> throws (hb h)) hs))"
proof (induction hs arbitrary: s)
  case Nil
  then show ?case by simp
next
  case (Cons g rest)
  then have g: "registered s e g" "unsubs (hb g) = []" by simp_all
  show ?case
  proof (cases "throws (hb g)")
    case True
    with g show ?thesis by (simp add: Let_def calls_invoke)
  next
    case False
    from Cons.prems g have "\<forall>h\<in>set rest. registered (invoke hb e d g s) e h \<and> unsubs (hb h) = []"
      by (simp add: registered_invoke_plain)
    from Cons.IH [OF this] False g show ?thesis
      by (simp add: Let_def calls_invoke)
  qed
qed

subsection \<open>A handler that throws ends the dispatch\<close>

lemma forEach_append:
  "forEach hb e d (xs @ ys) s =
     (if snd (forEach hb e d xs s) then forEach hb e d xs s
      else forEach hb e d ys (fst (forEach hb e d xs s)))"
proof (induction xs arbitrary: s)
  case Nil
  then show ?case by simp
next
  case (Cons x xs)
  show ?case
  proof (cases "registered s e x")
    case False
    with Cons.IH [of s] show ?thesis by simp
  next
    case True
    with Cons.IH [of "invoke hb e d x s"] show ?thesis by (simp add: Let_def)
  qed
qed

lemma forEach_visits:
  "\<exists>vs. set vs \<subseteq> set hs \<and>
     calls (fst (forEach hb e d hs s)) = calls s @ map (\<lambda>h. (e, h, d)) vs"
proof (induction hs arbitrary: s)
  case Nil
  have "set [] \<subseteq> set ([] :: nat list) \<and>
     calls (fst (forEach hb e d [] s)) = calls s @ map (\<lambda>h. (e, h, d)) []" by simp
  then show ?case by blast
next
  case (Cons g rest)
  show ?case
  proof (cases "registered s e g")
    case False
    from Cons.IH [of s] obtain vs where
      "set vs \<subseteq> set rest" "calls (fst (forEach hb e d rest s)) = calls s @ map (\<lambda>h. (e, h, d)) vs"
      by blast
    with False have "set vs \<subseteq> set (g # rest) \<and>
      calls (fst (forEach hb e d (g # rest) s)) = calls s @ map (\<lambda>h. (e, h, d)) vs"
      by auto
    then show ?thesis by blast
  next
    case True
    show ?thesis
    proof (cases "throws (hb g)")
      case t: True
      with True have "set [g] \<subseteq> set (g # rest) \<and>
        calls (fst (forEach hb e d (g # rest) s)) = calls s @ map (\<lambda>h. (e, h, d)) [g]"
        by (simp add: Let_def calls_invoke)
      then show ?thesis by blast
    next
      case f: False
      from Cons.IH [of "invoke hb e d g s"] obtain vs where
        "set vs \<subseteq> set rest"
        "calls (fst (forEach hb e d rest (invoke hb e d g s))) =
           calls (invoke hb e d g s) @ map (\<lambda>h. (e, h, d)) vs"
        by blast
      with True f have "set (g # vs) \<subseteq> set (g # rest) \<and>
        calls (fst (forEach hb e d (g # rest) s)) = calls s @ map (\<lambda>h. (e, h, d)) (g # vs)"
        by (auto simp: Let_def calls_invoke)
      then show ?thesis by blast
    qed
  qed
qed

lemma invocations_unvisited:
  "calls s' = calls s @ map (\<lambda>h. (e, h, d)) vs \<Longrightarrow> g \<notin> set vs \<Longrightarrow>
   invocations e g s' = invocations e g s"
  by (induction vs rule: rev_induct) (auto simp: invocations_def filter_empty_conv)

lemma forEach_throw_blocks_later:
  assumes dist: "distinct (pre @ g # post)"
    and thr: "throws (hb g)"
    and inv: "invocations e g (fst (forEach hb e d (pre @ g # post) s)) \<noteq> invocations e g s"
    and h: "h \<in> set post"
  shows "invocations e h (fst (forEach hb e d (pre @ g # post) s)) = invocations e h s"
proof -
  let ?r1 = "forEach hb e d pre s"
  from forEach_visits [of pre hb e d s] obtain vs1 where
    v1: "set vs1 \<subseteq> set pre" and c1: "calls (fst ?r1) = calls s @ map (\<lambda>h. (e, h, d)) vs1"
    by blast
  from dist have gpre: "g \<notin> set pre" and gpost: "g \<notin> set post" by auto
  from dist h have hpre: "h \<notin> set pre" and hg: "h \<noteq> g" by auto
  have g1: "invocations e g (fst ?r1) = invocations e g s"
    using c1 v1 gpre by (intro invocations_unvisited [of _ s e d vs1]) auto
  have h1: "invocations e h (fst ?r1) = invocations e h s"
    using c1 v1 hpre by (intro invocations_unvisited [of _ s e d vs1]) auto
  show ?thesis
  proof (cases "snd ?r1")
    case True
    then have "forEach hb e d (pre @ g # post) s = ?r1" by (simp add: forEach_append)
    with inv g1 show ?thesis by simp
  next
    case False
    then have eq: "forEach hb e d (pre @ g # post) s = forEach hb e d (g # post) (fst ?r1)"
      by (simp add: forEach_append)
    show ?thesis
    proof (cases "registered (fst ?r1) e g")
      case nr: False
      from forEach_visits [of post hb e d "fst ?r1"] obtain vs2 where
        v2: "set vs2 \<subseteq> set post"
        and c2: "calls (fst (forEach hb e d post (fst ?r1))) =
                  calls (fst ?r1) @ map (\<lambda>h. (e, h, d)) vs2"
        by blast
      have "invocations e g (fst (forEach hb e d post (fst ?r1))) = invocations e g (fst ?r1)"
        using c2 v2 gpost by (intro invocations_unvisited [of _ "fst ?r1" e d vs2]) auto
      with eq nr g1 inv show ?thesis by simp
    next
      case True
      with thr eq have "fst (forEach hb e d (pre @ g # post) s) = invoke hb e d g (fst ?r1)"
        by (simp add: Let_def)
      then have "calls (fst (forEach hb e d (pre @ g # post) s)) =
          calls (fst ?r1) @ map (\<lambda>h. (e, h, d)) [g]"
        by (simp add: calls_invoke)
      from invocations_unvisited [OF this] hg h1 show ?thesis by simp
    qed
  qed
qed

text \<open>
  C2, as the code has it. The whole body of \<^verbatim>\<open>onmessage\<close> is one \<^verbatim>\<open>try\<close> block
  and the handlers are not isolated from one another. For a frame of type \<open>e\<close>:
  once a handler that throws has been called in the dispatch, no handler subscribed
  after it is called for that frame (the handlers of an event type are a
  \<^verbatim>\<open>Set\<close>, each there once); every call of the dispatch is a call of a handler
  registered for \<open>e\<close>, with the frame's \<^verbatim>\<open>data\<close>; and when no handler
  registered for \<open>e\<close> unsubscribes during the dispatch, the handlers called are
  exactly the registered ones in subscription order up to and including the first
  that throws, all of them when none throws.
\<close>

theorem dispatch_stops_at_first_throw:
  "(get_prop msg ''type'' = Inr (Some (JStr e)) \<and> handlersRef s e = Some (pre @ g # post)
      \<and> distinct (pre @ g # post) \<and> throws (hb g)
      \<and> invocations e g (onmessage hb (Some msg) s) \<noteq> invocations e g s \<longrightarrow>
      (\<forall>h\<in>set post. invocations e h (onmessage hb (Some msg) s) = invocations e h s))
   \<and> (get_prop msg ''type'' = Inr (Some (JStr e)) \<and> handlersRef s e = Some hs \<longrightarrow>
      (\<exists>vs. set vs \<subseteq> set hs \<and>
         calls (onmessage hb (Some msg) s) =
           calls s @ map (\<lambda>h. (e, h, opt_prop (Some msg) ''data'')) vs))
   \<and> (get_prop msg ''type'' = Inr (Some (JStr e)) \<and> handlersRef s e = Some hs
      \<and> (\<forall>h\<in>set hs. unsubs (hb h) = []) \<longrightarrow>
      calls (onmessage hb (Some msg) s) =
        calls s @ map (\<lambda>h. (e, h, opt_prop (Some msg) ''data''))
          (takeWhile (\<lambda>h. \<not> throws (hb h)) hs @ take 1 (dropWhile (\<lambda>h. \<not> throws (hb h)) hs)))"
proof (intro conjI impI)
  assume a: "get_prop msg ''type'' = Inr (Some (JStr e)) \<and> handlersRef s e = Some (pre @ g # post)
      \<and> distinct (pre @ g # post) \<and> throws (hb g)
      \<and> invocations e g (onmessage hb (Some msg) s) \<noteq> invocations e g s"
  let ?d = "opt_prop (Some msg) ''data''"
  from a have om: "onmessage hb (Some msg) s = fst (forEach hb e ?d (pre @ g # post) s)"
    by (simp add: onmessage_def)
  show "\<forall>h\<in>set post. invocations e h (onmessage hb (Some msg) s) = invocations e h s"
  proof
    fix h assume "h \<in> set post"
    with a om forEach_throw_blocks_later [of pre g post hb e ?d s h]
    show "invocations e h (onmessage hb (Some msg) s) = invocations e h s" by simp
  qed
next
  assume a: "get_prop msg ''type'' = Inr (Some (JStr e)) \<and> handlersRef s e = Some hs"
  then have "onmessage hb (Some msg) s = fst (forEach hb e (opt_prop (Some msg) ''data'') hs s)"
    by (simp add: onmessage_def)
  with forEach_visits [of hs hb e "opt_prop (Some msg) ''data''" s]
  show "\<exists>vs. set vs \<subseteq> set hs \<and>
         calls (onmessage hb (Some msg) s) =
           calls s @ map (\<lambda>h. (e, h, opt_prop (Some msg) ''data'')) vs" by simp
next
  assume a: "get_prop msg ''type'' = Inr (Some (JStr e)) \<and> handlersRef s e = Some hs
      \<and> (\<forall>h\<in>set hs. unsubs (hb h) = [])"
  then have "\<forall>h\<in>set hs. registered s e h \<and> unsubs (hb h) = []"
    by (simp add: registered_def)
  from forEach_calls_plain [OF this] a
  show "calls (onmessage hb (Some msg) s) =
        calls s @ map (\<lambda>h. (e, h, opt_prop (Some msg) ''data''))
          (takeWhile (\<lambda>h. \<not> throws (hb h)) hs @ take 1 (dropWhile (\<lambda>h. \<not> throws (hb h)) hs))"
    by (simp add: onmessage_def)
qed

text \<open>
  Handlers 0, 1, 2 and 3 subscribed in this order, handler 0 unsubscribing handler 1
  and handler 2 throwing: a frame reaches handler 0 and handler 2, and handler 3,
  subscribed after the one that throws, is not called. Handlers 2, 0 and 3
  subscribed in this order, handler 0 throwing and none unsubscribing: a frame
  reaches handler 2 and handler 0, and not handler 3.
\<close>

theorem dispatch_stops_at_first_throw_witness:
  "get_prop (JObj [(''type'', JStr ''tick''), (''data'', JNum 7)]) ''type''
     = Inr (Some (JStr ''tick''))
   \<and> handlersRef (run unsubscribing_then_throwing
        [Subscribe ''tick'' 0, Subscribe ''tick'' 1, Subscribe ''tick'' 2, Subscribe ''tick'' 3]
        (init ())) ''tick'' = Some ([0, 1] @ 2 # [3])
   \<and> distinct ([0, 1] @ 2 # [3 :: nat])
   \<and> throws (unsubscribing_then_throwing 2)
   \<and> invocations ''tick'' 2
        (onmessage unsubscribing_then_throwing
          (Some (JObj [(''type'', JStr ''tick''), (''data'', JNum 7)]))
          (run unsubscribing_then_throwing
            [Subscribe ''tick'' 0, Subscribe ''tick'' 1, Subscribe ''tick'' 2, Subscribe ''tick'' 3]
            (init ())))
       = [(''tick'', 2, Some (JNum 7))]
   \<and> invocations ''tick'' 3
        (onmessage unsubscribing_then_throwing
          (Some (JObj [(''type'', JStr ''tick''), (''data'', JNum 7)]))
          (run unsubscribing_then_throwing
            [Subscribe ''tick'' 0, Subscribe ''tick'' 1, Subscribe ''tick'' 2, Subscribe ''tick'' 3]
            (init ())))
       = []
   \<and> calls
        (onmessage unsubscribing_then_throwing
          (Some (JObj [(''type'', JStr ''tick''), (''data'', JNum 7)]))
          (run unsubscribing_then_throwing
            [Subscribe ''tick'' 0, Subscribe ''tick'' 1, Subscribe ''tick'' 2, Subscribe ''tick'' 3]
            (init ())))
       = [(''tick'', 0, Some (JNum 7)), (''tick'', 2, Some (JNum 7))]
   \<and> handlersRef (run throwing_first
        [Subscribe ''tick'' 2, Subscribe ''tick'' 0, Subscribe ''tick'' 3] (init ())) ''tick''
       = Some [2, 0, 3]
   \<and> unsubs (throwing_first 2) = [] \<and> unsubs (throwing_first 0) = []
   \<and> unsubs (throwing_first 3) = []
   \<and> calls (onmessage throwing_first (Some (JObj [(''type'', JStr ''tick''), (''data'', JNum 7)]))
        (run throwing_first [Subscribe ''tick'' 2, Subscribe ''tick'' 0, Subscribe ''tick'' 3]
          (init ())))
      = [(''tick'', 2, Some (JNum 7)), (''tick'', 0, Some (JNum 7))]"
  using
    dispatch_stops_at_first_throw [of "JObj [(''type'', JStr ''tick''), (''data'', JNum 7)]" "''tick''"
      "run unsubscribing_then_throwing
        [Subscribe ''tick'' 0, Subscribe ''tick'' 1, Subscribe ''tick'' 2, Subscribe ''tick'' 3]
        (init ())"
      "[0, 1]" 2 "[3]" unsubscribing_then_throwing "[0, 1, 2, 3]"]
    dispatch_stops_at_first_throw [of "JObj [(''type'', JStr ''tick''), (''data'', JNum 7)]" "''tick''"
      "run throwing_first [Subscribe ''tick'' 2, Subscribe ''tick'' 0, Subscribe ''tick'' 3] (init ())"
      "[]" 0 "[]" throwing_first "[2, 0, 3]"]
  by (simp add: run_def init_def subscribe_def unsubscribe_def set_add_def onmessage_def
      registered_def invoke_def invocations_def unsubscribing_then_throwing_def throwing_first_def
      Let_def)

text \<open>
  The claim as stated fails: handler 0 (which throws) and handler 1 (which does not) are
  subscribed to \<^verbatim>\<open>tick\<close>; a \<^verbatim>\<open>tick\<close> frame arrives on the open socket; the only
  call recorded is the one of handler 0, and handler 1 is still registered.
\<close>

theorem throwing_handler_blocks_later_handler:
  "calls (run throwing_first
      [Subscribe ''tick'' 0, Subscribe ''tick'' 1, Mount, WsOpen 0,
       WsMessage 0 (frame_of ''tick'' JNull)]
      (init ())) = [(''tick'', 0, Some JNull)]
   \<and> registered (run throwing_first
      [Subscribe ''tick'' 0, Subscribe ''tick'' 1, Mount, WsOpen 0,
       WsMessage 0 (frame_of ''tick'' JNull)]
      (init ())) ''tick'' 1
   \<and> throws (throwing_first 0) \<and> \<not> throws (throwing_first 1)"
  by (simp add: run_def init_def subscribe_def set_add_def mount_def connect_def ready_def
      onopen_def onmessage_def frame_of_def registered_def invoke_def throwing_first_def Let_def)

text \<open>
  C9. Calling the unsubscribe function of handler \<open>h\<close> for event type \<open>e\<close> leaves
  \<open>h\<close> unregistered for \<open>e\<close>. From any state in which \<open>h\<close> is not registered for
  \<open>e\<close>, whatever happens next (frames of any type, socket events, timers, other
  subscriptions and unsubscriptions), as long as \<open>h\<close> is not subscribed to \<open>e\<close>
  again, \<open>h\<close> stays unregistered and no further call of \<open>h\<close> for \<open>e\<close> is recorded.
  And within one dispatch (of \<open>e\<close> itself or of another event type): when the
  handler \<open>g\<close> being visited calls the unsubscribe function of another handler
  \<open>h\<close> for \<open>e\<close>, then whatever handlers are still to be visited (\<open>h\<close> among
  them or not), \<open>h\<close> is not called for \<open>e\<close> in the rest of that dispatch.
\<close>

theorem unsubscribed_handler_not_called:
  "\<not> registered (unsubscribe e h s) e h
   \<and> (\<not> registered s e h \<and> Subscribe e h \<notin> set evs \<longrightarrow>
        \<not> registered (run hb evs s) e h \<and> invocations e h (run hb evs s) = invocations e h s)
   \<and> ((e, h) \<in> set (unsubs (hb g)) \<and> registered s e' g \<and> (e', g) \<noteq> (e, h) \<longrightarrow>
        invocations e h (fst (forEach hb e' d (g # rest) s)) = invocations e h s
        \<and> \<not> registered (fst (forEach hb e' d (g # rest) s)) e h)"
proof -
  have mid: "invocations e h (fst (forEach hb e' d (g # rest) s)) = invocations e h s
        \<and> \<not> registered (fst (forEach hb e' d (g # rest) s)) e h"
    if u: "(e, h) \<in> set (unsubs (hb g))" and r: "registered s e' g" and ne: "(e', g) \<noteq> (e, h)"
  proof -
    let ?s1 = "invoke hb e' d g s"
    have r1: "\<not> registered ?s1 e h"
      unfolding invoke_def using u by (rule registered_fold_unsubscribe_mem)
    have c1: "invocations e h ?s1 = invocations e h s"
      using ne by (auto simp: invocations_def calls_invoke)
    show ?thesis
    proof (cases "throws (hb g)")
      case True
      with r r1 c1 show ?thesis by (simp add: Let_def)
    next
      case False
      with r forEach_unregistered [OF r1, of hb e' d rest] c1 show ?thesis by (simp add: Let_def)
    qed
  qed
  show ?thesis
    using registered_unsubscribe_same [of e h s] run_unregistered [of s e h evs hb] mid
    by blast
qed

text \<open>
  Handlers 0 and 1 are subscribed to \<^verbatim>\<open>tick\<close> and the socket is open. After the
  unsubscribe function of handler 1 is called, two \<^verbatim>\<open>tick\<close> frames (and a repeated
  subscription of handler 0) produce no call of handler 1. And when handler 0 itself
  unsubscribes handler 1 while a \<^verbatim>\<open>tick\<close> frame is dispatched to both, handler 1,
  registered when the dispatch started, is not called.
\<close>

theorem unsubscribed_handler_not_called_witness:
  "\<not> registered (unsubscribe ''tick'' 1
        (run unsubscribing_first [Subscribe ''tick'' 0, Subscribe ''tick'' 1, Mount, WsOpen 0]
          (init ())))
      ''tick'' 1
   \<and> Subscribe ''tick'' 1 \<notin> set [WsMessage 0 (frame_of ''tick'' JNull), Subscribe ''tick'' 0,
        WsMessage 0 (frame_of ''tick'' JNull)]
   \<and> invocations ''tick'' 1
        (run unsubscribing_first
          [WsMessage 0 (frame_of ''tick'' JNull), Subscribe ''tick'' 0,
           WsMessage 0 (frame_of ''tick'' JNull)]
          (unsubscribe ''tick'' 1
            (run unsubscribing_first [Subscribe ''tick'' 0, Subscribe ''tick'' 1, Mount, WsOpen 0]
              (init ())))) = []
   \<and> (''tick'', 1) \<in> set (unsubs (unsubscribing_first 0))
   \<and> registered
        (run unsubscribing_first [Subscribe ''tick'' 0, Subscribe ''tick'' 1, Mount, WsOpen 0]
          (init ()))
        ''tick'' 0
   \<and> registered
        (run unsubscribing_first [Subscribe ''tick'' 0, Subscribe ''tick'' 1, Mount, WsOpen 0]
          (init ()))
        ''tick'' 1
   \<and> invocations ''tick'' 1
        (fst (forEach unsubscribing_first ''tick'' (Some JNull) [0, 1]
          (run unsubscribing_first [Subscribe ''tick'' 0, Subscribe ''tick'' 1, Mount, WsOpen 0]
            (init ())))) = []"
  using
    unsubscribed_handler_not_called [of "''tick''" 1
      "run unsubscribing_first [Subscribe ''tick'' 0, Subscribe ''tick'' 1, Mount, WsOpen 0] (init ())"
      "[]" unsubscribing_first 0 "''tick''" "Some JNull" "[1]"]
    unsubscribed_handler_not_called [of "''tick''" 1
      "unsubscribe ''tick'' 1
        (run unsubscribing_first [Subscribe ''tick'' 0, Subscribe ''tick'' 1, Mount, WsOpen 0]
          (init ()))"
      "[WsMessage 0 (frame_of ''tick'' JNull), Subscribe ''tick'' 0,
        WsMessage 0 (frame_of ''tick'' JNull)]" unsubscribing_first 0 "''tick''" "Some JNull" "[]"]
  by (simp add: run_def init_def subscribe_def unsubscribe_def set_add_def mount_def connect_def
      ready_def onopen_def registered_def invocations_def unsubscribing_first_def Let_def)

section \<open>The resource caches\<close>

text \<open>
  C3, as the code has it. The dashboard cache polls only while the provider reports
  disconnected: its interval is 0 (no timer-driven pull, however long the connection
  stays open) while connected and 30000 ms otherwise. The coin-list cache does not
  read the connection state: its interval is 60000 ms whether connected or not.
\<close>

theorem refresh_intervals:
  "useDashboard_refreshInterval True = 0
   \<and> timer_pulls (useDashboard_refreshInterval True) ms = 0
   \<and> useDashboard_refreshInterval False = 30000
   \<and> timer_pulls (useDashboard_refreshInterval False) ms = ms div 30000
   \<and> useCoins_refreshInterval conn = 60000
   \<and> timer_pulls (useCoins_refreshInterval conn) ms = ms div 60000"
  by (simp add: useDashboard_refreshInterval_def useCoins_refreshInterval_def timer_pulls_def)

text \<open>
  The claim as stated fails for the coin-list cache: while connected its interval is
  60000 ms, and one timer-driven pull falls within 60000 ms of an open connection.
\<close>

theorem coins_poll_while_connected:
  "useCoins_refreshInterval True = 60000
   \<and> timer_pulls (useCoins_refreshInterval True) 60000 = 1"
  by (simp add: useCoins_refreshInterval_def timer_pulls_def)

text \<open>
  C5. An \<^verbatim>\<open>initial_state\<close> payload with a dashboard in it (a truthy
  \<^verbatim>\<open>dashboard\<close> field, which every object is) sets the cached dashboard to that
  field and requests no revalidation; a \<^verbatim>\<open>dashboard_update\<close> payload replaces the
  cached dashboard whole, again with no revalidation. Through the provider, with
  \<^verbatim>\<open>useDashboard\<close> subscribed and the socket open: after the \<^verbatim>\<open>initial_state\<close>
  frame the cache holds its dashboard, after the following \<^verbatim>\<open>dashboard_update\<close>
  frame it holds the update, and no revalidation was requested.
\<close>

theorem initial_state_seeds_update_replaces:
  "truthy (opt_prop (Some p) ''dashboard'') \<Longrightarrow>
     on_initial_state (Some p) c = c\<lparr> data := opt_prop (Some p) ''dashboard'' \<rparr>
   \<and> on_dashboard_update (Some upd) c = c\<lparr> data := Some upd \<rparr>
   \<and> dashboard (app (run hooks
        [Mount, WsOpen 0, WsMessage 0 (frame_of ''initial_state'' p)]
        (useDashboard_effect (init no_caches))))
       = \<lparr> data = opt_prop (Some p) ''dashboard'', revalidations = 0 \<rparr>
   \<and> dashboard (app (run hooks
        [Mount, WsOpen 0, WsMessage 0 (frame_of ''initial_state'' p),
         WsMessage 0 (frame_of ''dashboard_update'' upd)]
        (useDashboard_effect (init no_caches))))
       = \<lparr> data = Some upd, revalidations = 0 \<rparr>"
  by (simp add: on_initial_state_def on_dashboard_update_def mutate_def run_def init_def
      useDashboard_effect_def subscribe_def set_add_def mount_def connect_def ready_def onopen_def
      onmessage_def frame_of_def registered_def invoke_def hooks_def no_caches_def Let_def)

text \<open>
  The scenario of the specification: \<^verbatim>\<open>initial_state\<close> with dashboard
  \<^verbatim>\<open>{equity: 1000}\<close>, then \<^verbatim>\<open>dashboard_update\<close> with \<^verbatim>\<open>{equity: 900}\<close>.
\<close>

theorem initial_state_seeds_update_replaces_witness:
  "truthy (opt_prop (Some (JObj [(''dashboard'', JObj [(''equity'', JNum 1000)]),
       (''coins'', JArr []), (''blacklist'', JArr [])])) ''dashboard'')
   \<and> dashboard (app (run hooks
        [Mount, WsOpen 0,
         WsMessage 0 (frame_of ''initial_state''
           (JObj [(''dashboard'', JObj [(''equity'', JNum 1000)]), (''coins'', JArr []),
                  (''blacklist'', JArr [])]))]
        (useDashboard_effect (init no_caches))))
       = \<lparr> data = Some (JObj [(''equity'', JNum 1000)]), revalidations = 0 \<rparr>
   \<and> dashboard (app (run hooks
        [Mount, WsOpen 0,
         WsMessage 0 (frame_of ''initial_state''
           (JObj [(''dashboard'', JObj [(''equity'', JNum 1000)]), (''coins'', JArr []),
                  (''blacklist'', JArr [])])),
         WsMessage 0 (frame_of ''dashboard_update'' (JObj [(''equity'', JNum 900)]))]
        (useDashboard_effect (init no_caches))))
       = \<lparr> data = Some (JObj [(''equity'', JNum 900)]), revalidations = 0 \<rparr>"
  using initial_state_seeds_update_replaces
    [of "JObj [(''dashboard'', JObj [(''equity'', JNum 1000)]), (''coins'', JArr []),
              (''blacklist'', JArr [])]"
        "\<lparr> data = None, revalidations = 0 \<rparr>" "JObj [(''equity'', JNum 900)]"]
  by simp

section \<open>CoinTable\<close>

subsection \<open>Rows without a value and the insertion sort\<close>

lemma insert_sorted_nullish:
  "nullish (column k x) \<Longrightarrow> insert_sorted (comparator js k d) x acc = x # acc"
  by (cases acc) (simp_all add: sort_compare_def comparator_def)

lemma insert_sorted_past_nullish:
  "\<not> nullish (column k x) \<Longrightarrow> \<forall>y\<in>set ns. nullish (column k y) \<Longrightarrow>
   insert_sorted (comparator js k d) x (ns @ ms) = ns @ insert_sorted (comparator js k d) x ms"
  by (induction ns) (simp_all add: sort_compare_def comparator_def)

lemma fold_insert_sorted_nullish:
  "\<forall>y\<in>set ns. nullish (column k y) \<Longrightarrow>
   fold (insert_sorted (comparator js k d)) xs (ns @ ms) =
   rev (filter (\<lambda>c. nullish (column k c)) xs) @ ns @
   fold (insert_sorted (comparator js k d)) (filter (\<lambda>c. \<not> nullish (column k c)) xs) ms"
proof (induction xs arbitrary: ns ms)
  case Nil
  then show ?case by simp
next
  case (Cons x xs)
  show ?case
  proof (cases "nullish (column k x)")
    case True
    with Cons.prems have "\<forall>y\<in>set (x # ns). nullish (column k y)" by simp
    from Cons.IH [OF this, of ms] True show ?thesis
      by (simp add: insert_sorted_nullish)
  next
    case False
    from Cons.IH [OF Cons.prems, of "insert_sorted (comparator js k d) x ms"] False Cons.prems
    show ?thesis
      by (simp add: insert_sorted_past_nullish)
  qed
qed

lemma array_sort_nullish:
  "array_sort (comparator js k d) xs =
   array_sort (comparator js k d) (filter (\<lambda>c. \<not> nullish (column k c)) xs) @
   filter (\<lambda>c. nullish (column k c)) xs"
  using fold_insert_sorted_nullish [of "[]" k js d xs "[]"]
  by (simp add: array_sort_def)

lemma mset_insert_sorted: "mset (insert_sorted f x ys) = add_mset x (mset ys)"
  by (induction ys) simp_all

lemma mset_fold_insert_sorted: "mset (fold (insert_sorted f) xs acc) = mset xs + mset acc"
  by (induction xs arbitrary: acc) (simp_all add: mset_insert_sorted)

lemma mset_array_sort: "mset (array_sort f xs) = mset xs"
  by (simp add: array_sort_def mset_fold_insert_sorted)

lemma str_includes_iff: "str_includes s q \<longleftrightarrow> (\<exists>pre suf. s = pre @ q @ suf)"
proof (induction s)
  case Nil
  then show ?case by simp
next
  case (Cons c s)
  have "take (length q) (c # s) = q \<longleftrightarrow> (\<exists>suf. c # s = q @ suf)"
    by (metis append_eq_conv_conj)
  moreover have "(\<exists>pre suf. c # s = pre @ q @ suf) \<longleftrightarrow>
      (\<exists>suf. c # s = q @ suf) \<or> (\<exists>pre suf. s = pre @ q @ suf)"
    (is "?L \<longleftrightarrow> ?A \<or> ?B")
  proof
    assume ?L
    then obtain pre suf where e: "c # s = pre @ q @ suf" by blast
    show "?A \<or> ?B"
    proof (cases pre)
      case Nil
      with e show ?thesis by auto
    next
      case (Cons p pre')
      with e have "s = pre' @ q @ suf" by simp
      then show ?thesis by blast
    qed
  next
    assume "?A \<or> ?B"
    then show ?L
    proof
      assume ?A
      then obtain suf where "c # s = [] @ q @ suf" by auto
      then show ?L by blast
    next
      assume ?B
      then obtain pre suf where "s = pre @ q @ suf" by blast
      then have "c # s = (c # pre) @ q @ suf" by simp
      then show ?L by blast
    qed
  qed
  ultimately show ?case using Cons.IH by simp
qed

lemma set_array_sort: "set (array_sort f xs) = set xs"
  using mset_array_sort [of f xs] by (metis set_mset_mset)

lemma str_includes_empty: "str_includes s []"
  by (cases s) simp_all

lemma toLowerCase_empty: "toLowerCase js [] = []"
  by (simp add: toLowerCase_def is_ascii_def)

lemma ascii_examples:
  "is_ascii ''BTC''" "is_ascii ''ETH''" "is_ascii ''SOL''" "is_ascii ''et''"
  "map lower_char ''BTC'' = ''btc''" "map lower_char ''ETH'' = ''eth''"
  "map lower_char ''SOL'' = ''sol''" "map lower_char ''et'' = ''et''"
  by (code_simp+)

lemma lower_examples:
  "toLowerCase js ''BTC'' = ''btc''" "toLowerCase js ''ETH'' = ''eth''"
  "toLowerCase js ''SOL'' = ''sol''" "toLowerCase js ''et'' = ''et''"
  by (simp_all only: toLowerCase_def ascii_examples if_True)

text \<open>
  C4. Whatever the rows, the search string, the sort column and the direction, the
  displayed list is its rows that have a value in the sort column followed by its
  rows whose value there is \<^verbatim>\<open>null\<close> or absent: no row without a value stands
  before a row with one. Rows with win rates 3, null, 1, null, 2 come out as
  1, 2, 3, null, null ascending and as 3, 2, 1, null, null descending.
\<close>

theorem nullish_rows_sort_last:
  "filtered js cs search k d =
     filter (\<lambda>c. \<not> nullish (column k c)) (filtered js cs search k d) @
     filter (\<lambda>c. nullish (column k c)) (filtered js cs search k d)
   \<and> map win_rate (filtered js
        [example_row ''A'' (Num 3), example_row ''B'' Null, example_row ''C'' (Num 1),
         example_row ''D'' Null, example_row ''E'' (Num 2)] [] K_win_rate asc)
       = [Num 1, Num 2, Num 3, Null, Null]
   \<and> map win_rate (filtered js
        [example_row ''A'' (Num 3), example_row ''B'' Null, example_row ''C'' (Num 1),
         example_row ''D'' Null, example_row ''E'' (Num 2)] [] K_win_rate desc)
       = [Num 3, Num 2, Num 1, Null, Null]"
proof -
  define xs where
    "xs = filter (\<lambda>c. str_includes (toLowerCase js (coin c)) (toLowerCase js search)) cs"
  define A where
    "A = array_sort (comparator js k d) (filter (\<lambda>c. \<not> nullish (column k c)) xs)"
  define B where "B = filter (\<lambda>c. nullish (column k c)) xs"
  have R: "filtered js cs search k d = A @ B"
    unfolding A_def B_def filtered_def Let_def xs_def by (rule array_sort_nullish)
  have "set A = set (filter (\<lambda>c. \<not> nullish (column k c)) xs)"
    unfolding A_def by (rule set_array_sort)
  then have a: "filter (\<lambda>c. \<not> nullish (column k c)) A = A"
    "filter (\<lambda>c. nullish (column k c)) A = []"
    by (auto simp: filter_id_conv filter_empty_conv)
  have b: "filter (\<lambda>c. \<not> nullish (column k c)) B = []"
    "filter (\<lambda>c. nullish (column k c)) B = B"
    by (auto simp: B_def filter_id_conv filter_empty_conv)
  have general: "filtered js cs search k d =
     filter (\<lambda>c. \<not> nullish (column k c)) (filtered js cs search k d) @
     filter (\<lambda>c. nullish (column k c)) (filtered js cs search k d)"
    by (simp add: R a b)
  have up: "map win_rate (filtered js
        [example_row ''A'' (Num 3), example_row ''B'' Null, example_row ''C'' (Num 1),
         example_row ''D'' Null, example_row ''E'' (Num 2)] [] K_win_rate asc)
       = [Num 1, Num 2, Num 3, Null, Null]"
    by (simp add: filtered_def toLowerCase_empty str_includes_empty array_sort_def example_row_def
        sort_compare_def comparator_def nullish_def)
  have down: "map win_rate (filtered js
        [example_row ''A'' (Num 3), example_row ''B'' Null, example_row ''C'' (Num 1),
         example_row ''D'' Null, example_row ''E'' (Num 2)] [] K_win_rate desc)
       = [Num 3, Num 2, Num 1, Null, Null]"
    by (simp add: filtered_def toLowerCase_empty str_includes_empty array_sort_def example_row_def
        sort_compare_def comparator_def nullish_def)
  from general up down show ?thesis by blast
qed

text \<open>
  C6. The displayed rows are exactly the given rows (each as often as it is given)
  whose lower-cased coin name contains the lower-cased search string as a substring,
  whatever the engine's lower-casing of strings outside ASCII is; the empty search
  string keeps every row; and of BTC, ETH, SOL the search string \<^verbatim>\<open>et\<close> keeps ETH
  alone, in every sort column and direction.
\<close>

theorem filter_keeps_matching_rows:
  "mset (filtered js cs search k d) =
     filter_mset
       (\<lambda>c. \<exists>pre suf. toLowerCase js (coin c) = pre @ toLowerCase js search @ suf) (mset cs)
   \<and> mset (filtered js cs [] k d) = mset cs
   \<and> map coin (filtered js
        [example_row ''BTC'' Null, example_row ''ETH'' Null, example_row ''SOL'' Null] ''et'' k d)
       = [''ETH'']"
proof -
  have "mset (filtered js cs search k d) =
     filter_mset
       (\<lambda>c. \<exists>pre suf. toLowerCase js (coin c) = pre @ toLowerCase js search @ suf) (mset cs)"
    by (simp add: filtered_def mset_array_sort str_includes_iff flip: mset_filter)
  moreover have "mset (filtered js cs [] k d) = mset cs"
    by (simp add: filtered_def mset_array_sort toLowerCase_empty str_includes_empty)
  moreover have "map coin (filtered js
        [example_row ''BTC'' Null, example_row ''ETH'' Null, example_row ''SOL'' Null] ''et'' k d)
       = [''ETH'']"
    by (simp add: filtered_def lower_examples array_sort_def example_row_def)
  ultimately show ?thesis by simp
qed

text \<open>
  C7. \<^verbatim>\<open>handleSort\<close> on the active column flips the direction and keeps the column;
  on another column it makes that column active, ascending. Twice on the active column
  gives back the state, and with it the displayed rows.
\<close>

theorem handleSort_toggles:
  "(sortKey st = key \<longrightarrow>
      handleSort key st = st\<lparr> sortDir := (if sortDir st = asc then desc else asc) \<rparr>)
   \<and> (sortKey st \<noteq> key \<longrightarrow> handleSort key st = st\<lparr> sortKey := key, sortDir := asc \<rparr>)
   \<and> (sortKey st = key \<longrightarrow>
        handleSort key (handleSort key st) = st
        \<and> rows js cs search (handleSort key (handleSort key st)) = rows js cs search st)"
proof -
  have "sortKey st = key \<Longrightarrow> handleSort key (handleSort key st) = st"
    by (cases "sortDir st") (simp_all add: handleSort_def)
  then show ?thesis by (auto simp: handleSort_def)
qed

text \<open>
  From the initial state (column \<^verbatim>\<open>coin\<close>, ascending): a click on \<^verbatim>\<open>coin\<close> gives
  descending, a second click gives the initial state back, and a click on
  \<^verbatim>\<open>win_rate\<close> gives that column, ascending.
\<close>

theorem handleSort_toggles_witness:
  "sortKey initial_table = K_coin \<and> sortKey initial_table \<noteq> K_win_rate
   \<and> handleSort K_coin initial_table = initial_table\<lparr> sortDir := desc \<rparr>
   \<and> handleSort K_win_rate initial_table
       = initial_table\<lparr> sortKey := K_win_rate, sortDir := asc \<rparr>
   \<and> handleSort K_coin (handleSort K_coin initial_table) = initial_table"
  using handleSort_toggles [of initial_table K_coin] handleSort_toggles [of initial_table K_win_rate]
  by (simp add: initial_table_def handleSort_def)

end
